theory Spec2Isabelle
  imports Main
begin

section \<open>Python strings\<close>

text \<open>
  A Python \<open>str\<close> is a sequence of Unicode code points and \<open>len\<close> counts code points.
  The emoji palette and the hook phrase of \<open>writer.py\<close> hold code points above 255, so a
  string is modelled as a list of code points, not as a list of 8-bit \<open>char\<close>.
\<close>

type_synonym pchar = nat
type_synonym pstr = "pchar list"

definition ascii :: "string \<Rightarrow> pstr" where
  "ascii s = map of_char s"

text \<open>
  The characters that \<open>str.strip()\<close> and \<open>str.split()\<close> (both without argument) treat as
  whitespace: the code points for which CPython's \<open>str.isspace\<close> holds.
\<close>

definition py_isspace :: "pchar \<Rightarrow> bool" where
  "py_isspace c \<longleftrightarrow>
     (9 \<le> c \<and> c \<le> 13) \<or> (28 \<le> c \<and> c \<le> 32) \<or> c = 133 \<or> c = 160 \<or> c = 5760 \<or>
     (8192 \<le> c \<and> c \<le> 8202) \<or> c = 8232 \<or> c = 8233 \<or> c = 8239 \<or> c = 8287 \<or> c = 12288"

definition lstrip :: "pstr \<Rightarrow> pstr" where
  "lstrip s = dropWhile py_isspace s"

definition rstrip :: "pstr \<Rightarrow> pstr" where
  "rstrip s = rev (dropWhile py_isspace (rev s))"

definition strip :: "pstr \<Rightarrow> pstr" where
  "strip s = rstrip (lstrip s)"

text \<open>\<open>s.split()\<close>: the maximal runs of non-whitespace characters, in order.\<close>

fun split_ws :: "pstr \<Rightarrow> pstr \<Rightarrow> pstr list" where
  "split_ws cur [] = (if cur = [] then [] else [cur])"
| "split_ws cur (c # cs) =
     (if py_isspace c then (if cur = [] then split_ws [] cs else cur # split_ws [] cs)
      else split_ws (cur @ [c]) cs)"

definition py_split :: "pstr \<Rightarrow> pstr list" where
  "py_split s = split_ws [] s"

text \<open>\<open>sep.join(xs)\<close>.\<close>

fun join :: "pstr \<Rightarrow> pstr list \<Rightarrow> pstr" where
  "join sep [] = []"
| "join sep [x] = x"
| "join sep (x # y # ys) = x @ sep @ join sep (y # ys)"

text \<open>\<open>xs[:k]\<close> for a Python integer \<open>k\<close>: a negative \<open>k\<close> counts from the end.\<close>

definition slice_to :: "'a list \<Rightarrow> int \<Rightarrow> 'a list" where
  "slice_to xs k = (if k < 0 then take (nat (int (length xs) + k)) xs else take (nat k) xs)"

text \<open>\<open>str(i)\<close> of a Python integer, as \<open>f"{i}"\<close> renders it.\<close>

fun digits :: "nat \<Rightarrow> pstr" where
  "digits n = (if n < 10 then [48 + n] else digits (n div 10) @ [48 + n mod 10])"

declare digits.simps [simp del]

definition str_int :: "int \<Rightarrow> pstr" where
  "str_int i = (if i < 0 then 45 # digits (nat (- i)) else digits (nat i))"

text \<open>
  \<open>s.split('. ')\<close>: the pieces between the occurrences of the separator, found from the
  left without overlap; a string without the separator is its own single piece.
\<close>

fun cons_hd :: "'a \<Rightarrow> 'a list list \<Rightarrow> 'a list list" where
  "cons_hd a [] = [[a]]"
| "cons_hd a (p # ps) = (a # p) # ps"

fun split_sentences :: "pstr \<Rightarrow> pstr list" where
  "split_sentences (a # b # cs) =
     (if a = 46 \<and> b = 32 then [] # split_sentences cs
      else cons_hd a (split_sentences (b # cs)))"
| "split_sentences [a] = [[a]]"
| "split_sentences [] = [[]]"

section \<open>Errors and effects\<close>

text \<open>
  An exception, by what \<open>except ValueError\<close> would catch. \<open>ValueError\<close> stands for every
  instance of that class, subclasses included: the one \<open>generate_thread\<close> raises on a bad
  \<open>max_tweets\<close>, the one \<open>max()\<close> raises on an empty range, and the ones \<open>requests\<close>
  raises for a malformed URL (\<open>MissingSchema\<close>, \<open>InvalidSchema\<close> and \<open>InvalidURL\<close> all
  derive from \<open>ValueError\<close>). \<open>OtherError\<close> is any other exception, such as a connection
  failure or the \<open>HTTPError\<close> of \<open>raise_for_status\<close>. Both carry the message.
\<close>

datatype py_error = ValueError pstr | OtherError pstr

text \<open>The calls that leave the process, in the order they are made.\<close>

datatype event = FetchContent pstr | ChatCompletion pstr pstr

section \<open>\<open>_summarize_text\<close>\<close>

definition summary_prompt :: "pstr \<Rightarrow> int \<Rightarrow> pstr" where
  "summary_prompt text target_words =
     ascii ''Summarise the following text into a concise overview. Focus on the key '' @
     ascii ''ideas and eliminate unnecessary detail. Limit the summary to around '' @
     str_int target_words @ ascii '' words.'' @ [10, 10] @ text @ [10, 10] @ ascii ''Summary:''"

text \<open>
  \<open>openai_chat key prompt\<close> stands for the body of the \<open>try\<close> block up to the content of the
  first choice: importing the client, setting the key, the request. Any exception there is
  \<open>Inl\<close>, and the \<open>except Exception: pass\<close> falls through to the truncation. The second
  component of the result lists the external calls attempted.
\<close>

definition summarize_text ::
  "(pstr \<Rightarrow> pstr \<Rightarrow> 'x + pstr) \<Rightarrow> pstr \<Rightarrow> pstr option \<Rightarrow> int \<Rightarrow> pstr \<times> event list" where
  "summarize_text openai_chat text openai_api_key target_words =
     (let words = py_split text in
      if words = [] then ([], [])
      else
        let fallback = join [32] (slice_to words target_words) in
        (case openai_api_key of
           None \<Rightarrow> (fallback, [])
         | Some key \<Rightarrow>
             if key = [] then (fallback, [])
             else
               let prompt = summary_prompt text target_words in
               (case openai_chat key prompt of
                  Inr content \<Rightarrow> (strip content, [ChatCompletion key prompt])
                | Inl _ \<Rightarrow> (fallback, [ChatCompletion key prompt]))))"

section \<open>\<open>_chunk_text\<close>\<close>

text \<open>The \<open>for sent in sentences\<close> loop and the \<open>if current\<close> after it.\<close>

fun greedy :: "pstr list \<Rightarrow> pstr \<Rightarrow> pstr list \<Rightarrow> pstr list" where
  "greedy parts current [] = (if current \<noteq> [] then parts @ [current] else parts)"
| "greedy parts current (sent # rest) =
     (let seg = strip sent in
      if seg = [] then greedy parts current rest
      else
        let tentative = (if current \<noteq> [] then current @ [46, 32] @ seg else seg) in
        if int (length tentative) + 15 > 260 then greedy (parts @ [current]) seg rest
        else greedy parts tentative rest)"

definition greedy_parts :: "pstr \<Rightarrow> pstr list" where
  "greedy_parts summary = greedy [] [] (split_sentences summary)"

text \<open>
  \<open>max(range(len(parts)), key=lambda i: len(parts[i]))\<close>: the first index of a longest
  part; \<open>max\<close> of an empty range raises \<open>ValueError\<close>.
\<close>

definition longest_index :: "pstr list \<Rightarrow> py_error + nat" where
  "longest_index parts =
     (if parts = [] then Inl (ValueError (ascii ''max() arg is an empty sequence''))
      else Inr (foldl (\<lambda>best i. if length (parts ! i) > length (parts ! best) then i else best)
                  0 [1..<length parts]))"

text \<open>
  \<open>min(range(len(parts)-1), key=lambda i: len(parts[i]) + len(parts[i+1]))\<close>, reached
  only with at least two parts.
\<close>

definition smallest_pair_index :: "pstr list \<Rightarrow> nat" where
  "smallest_pair_index parts =
     foldl (\<lambda>best i. if length (parts ! i) + length (parts ! (i + 1))
                          < length (parts ! best) + length (parts ! (best + 1))
                       then i else best)
       0 [1..<length parts - 1]"

text \<open>\<open>while len(parts) < n_parts\<close>: pop the longest part, insert its two trimmed halves.\<close>

function split_loop :: "pstr list \<Rightarrow> int \<Rightarrow> py_error + pstr list" where
  "split_loop parts n_parts =
     (if int (length parts) < n_parts then
        (case longest_index parts of
           Inl e \<Rightarrow> Inl e
         | Inr idx \<Rightarrow>
             let part = parts ! idx; half = length part div 2 in
             split_loop (take idx parts @ [strip (take half part), strip (drop half part)]
                           @ drop (Suc idx) parts) n_parts)
      else Inr parts)"
  by pat_completeness auto
termination
  by (relation "measure (\<lambda>(parts, n_parts). nat (n_parts - int (length parts)))") auto

declare split_loop.simps [simp del]

text \<open>
  \<open>while len(parts) > n_parts\<close>: \<open>break\<close> with fewer than two parts, else replace the
  adjacent pair of least combined length by its trimmed join.
\<close>

function merge_loop :: "pstr list \<Rightarrow> int \<Rightarrow> pstr list" where
  "merge_loop parts n_parts =
     (if int (length parts) > n_parts then
        (if length parts < 2 then parts
         else
           let idx = smallest_pair_index parts;
               merged = strip (parts ! idx @ [32] @ parts ! (idx + 1)) in
           merge_loop (take idx parts @ [merged] @ drop (idx + 2) parts) n_parts)
      else parts)"
  by pat_completeness auto
termination
proof (relation "measure (\<lambda>(parts, n_parts). length parts)")
  show "wf (measure (\<lambda>(parts, n_parts). length parts))" by simp
next
  fix parts :: "pstr list" and n_parts :: int and x xa
  assume two: "\<not> length parts < 2" and x: "x = smallest_pair_index parts"
  have choice: "b < m \<Longrightarrow> set js \<subseteq> {..<m} \<Longrightarrow>
      foldl (\<lambda>best i. if P i best then i else best) b js < m"
    for b m :: nat and js P
    by (induction js arbitrary: b) auto
  have "x < length parts - 1"
    unfolding x smallest_pair_index_def
  proof (rule choice)
    show "0 < length parts - 1" using two by simp
    show "set [1..<length parts - 1] \<subseteq> {..<length parts - 1}" by auto
  qed
  then show "((take x parts @ [xa] @ drop (x + 2) parts, n_parts), (parts, n_parts))
             \<in> measure (\<lambda>(parts, n_parts). length parts)"
    by simp
qed

declare merge_loop.simps [simp del]

definition chunk_text :: "pstr \<Rightarrow> int \<Rightarrow> py_error + pstr list" where
  "chunk_text summary n_parts =
     (let summary = strip summary in
      if summary = [] then Inr (replicate (nat n_parts) [])
      else
        (case split_loop (greedy_parts summary) n_parts of
           Inl e \<Rightarrow> Inl e
         | Inr parts \<Rightarrow> Inr (slice_to (merge_loop parts n_parts) n_parts)))"

section \<open>\<open>generate_thread\<close>\<close>

text \<open>The palette and the hook phrase, code point by code point as \<open>writer.py\<close> has them.\<close>

definition emojis :: "pstr list" where
  "emojis =
     [[287, 376, 353, 8364], [287, 376, 8217, 161], [287, 376, 8220, 338], [287, 376, 8221],
      [287, 376, 8221, 165], [287, 376, 8220, 732], [226, 339, 8230], [287, 376, 338, 376],
      [287, 376, 175], [287, 376, 167, 160]]"

definition hook_suffix :: pstr where
  "hook_suffix =
     [32, 226, 8364, 8220, 32] @ ascii ''here'' @ [226, 8364, 8482] @ ascii ''s what you'' @
     [226, 8364, 8482] @ ascii ''ll learn:''"

text \<open>
  The \<open>for i, part in enumerate(parts, start=1)\<close> loop: \<open>tweets\<close> is the list built so far
  and \<open>i\<close> the running number.
\<close>

fun tweets_loop :: "pstr \<Rightarrow> int \<Rightarrow> pstr list \<Rightarrow> int \<Rightarrow> pstr list \<Rightarrow> pstr list" where
  "tweets_loop chosen_title max_tweets tweets i [] = tweets"
| "tweets_loop chosen_title max_tweets tweets i (part # rest) =
     (let emoji = emojis ! nat ((i - 1) mod int (length emojis));
          header = emoji @ [32] @ str_int i @ [47] @ str_int max_tweets @ [32] in
      if i = 1 then
        let hook = strip chosen_title @ hook_suffix;
            body = strip part;
            first_tweet = header @ hook @ [10] @ body in
        tweets_loop chosen_title max_tweets (tweets @ [first_tweet]) (i + 1) rest
      else
        tweets_loop chosen_title max_tweets (tweets @ [header @ strip part]) (i + 1) rest)"

definition format_tweets :: "pstr list \<Rightarrow> pstr \<Rightarrow> int \<Rightarrow> pstr list" where
  "format_tweets parts chosen_title max_tweets = tweets_loop chosen_title max_tweets [] 1 parts"

text \<open>\<open>title or page_title or url\<close>: \<open>None\<close> and the empty string are both false.\<close>

definition choose_title :: "pstr option \<Rightarrow> pstr \<Rightarrow> pstr \<Rightarrow> pstr" where
  "choose_title title page_title url =
     (case title of
        Some t \<Rightarrow> if t \<noteq> [] then t else if page_title \<noteq> [] then page_title else url
      | None \<Rightarrow> if page_title \<noteq> [] then page_title else url)"

text \<open>
  \<open>fetch_content\<close> goes through the network and an HTML parser; it is a parameter here,
  returning the triple (title, description, content) or the exception it raises.
  \<open>generate_thread\<close> has no handler, so that exception leaves it unchanged. The second
  component of the result lists the external calls made, in order.
\<close>

definition generate_thread ::
  "(pstr \<Rightarrow> py_error + pstr \<times> pstr \<times> pstr) \<Rightarrow> (pstr \<Rightarrow> pstr \<Rightarrow> 'x + pstr) \<Rightarrow>
   pstr \<Rightarrow> pstr option \<Rightarrow> pstr option \<Rightarrow> int \<Rightarrow> (py_error + pstr list) \<times> event list" where
  "generate_thread fetch_content openai_chat url openai_api_key title max_tweets =
     (if max_tweets < 3 \<or> max_tweets > 20 then
        (Inl (ValueError (ascii ''max_tweets must be between 3 and 20'')), [])
      else
        (case fetch_content url of
           Inl e \<Rightarrow> (Inl e, [FetchContent url])
         | Inr (page_title, description, content) \<Rightarrow>
             let chosen_title = choose_title title page_title url;
                 base_text = (if content \<noteq> [] then content else description);
                 (summary, calls) = summarize_text openai_chat base_text openai_api_key 300 in
             (case chunk_text summary max_tweets of
                Inl e \<Rightarrow> (Inl e, FetchContent url # calls)
              | Inr parts \<Rightarrow>
                  (Inr (format_tweets parts chosen_title max_tweets), FetchContent url # calls))))"

section \<open>Collaborators for concrete runs\<close>

text \<open>
  Stand-ins for the external collaborators, used where the model is run on a concrete
  input: a summarisation client whose call always fails, a page that cannot be reached,
  and the fetch of a URL without a scheme, for which \<open>requests.get\<close> raises
  \<open>MissingSchema\<close>, a subclass of \<open>ValueError\<close>.
\<close>

definition openai_unavailable :: "pstr \<Rightarrow> pstr \<Rightarrow> unit + pstr" where
  "openai_unavailable key prompt = Inl ()"

definition fetch_unavailable :: "pstr \<Rightarrow> py_error + pstr \<times> pstr \<times> pstr" where
  "fetch_unavailable url = Inl (OtherError (ascii ''connection refused''))"

definition fetch_missing_schema :: "pstr \<Rightarrow> py_error + pstr \<times> pstr \<times> pstr" where
  "fetch_missing_schema url = Inl (ValueError (ascii ''Invalid URL: No scheme supplied''))"

section \<open>Trimming\<close>

lemma all_dropWhile_iff: "(\<forall>x\<in>set (dropWhile P s). P x) \<longleftrightarrow> (\<forall>x\<in>set s. P x)"
  by (induction s) auto

lemma strip_Nil: "strip [] = []"
  by (simp add: strip_def lstrip_def rstrip_def)

lemma strip_eq_Nil_iff: "strip s = [] \<longleftrightarrow> (\<forall>c\<in>set s. py_isspace c)"
  by (simp add: strip_def lstrip_def rstrip_def dropWhile_eq_Nil_conv all_dropWhile_iff)

lemma lstrip_id: "s \<noteq> [] \<Longrightarrow> \<not> py_isspace (hd s) \<Longrightarrow> lstrip s = s"
  by (cases s) (simp_all add: lstrip_def)

lemma rstrip_id: "s \<noteq> [] \<Longrightarrow> \<not> py_isspace (last s) \<Longrightarrow> rstrip s = s"
  by (cases s rule: rev_cases) (simp_all add: rstrip_def)

lemma strip_id: "s \<noteq> [] \<Longrightarrow> \<not> py_isspace (hd s) \<Longrightarrow> \<not> py_isspace (last s) \<Longrightarrow> strip s = s"
  by (simp add: strip_def lstrip_id rstrip_id)

lemma rstrip_last: "rstrip s \<noteq> [] \<Longrightarrow> \<not> py_isspace (last (rstrip s))"
  unfolding rstrip_def
  by (metis (no_types, lifting) Nil_is_rev_conv hd_dropWhile last_rev)

lemma lstrip_hd: "lstrip s \<noteq> [] \<Longrightarrow> \<not> py_isspace (hd (lstrip s))"
  unfolding lstrip_def by (simp add: hd_dropWhile)

lemma rstrip_hd: "\<not> py_isspace (hd s) \<Longrightarrow> s \<noteq> [] \<Longrightarrow> rstrip s \<noteq> [] \<and> hd (rstrip s) = hd s"
proof (induction s rule: rev_induct)
  case Nil then show ?case by simp
next
  case (snoc x xs)
  show ?case
  proof (cases "py_isspace x")
    case True
    then have xs: "xs \<noteq> []" using snoc.prems by auto
    have "rstrip (xs @ [x]) = rstrip xs" using True by (simp add: rstrip_def)
    then show ?thesis using snoc xs by simp
  next
    case False
    then show ?thesis by (simp add: rstrip_def)
  qed
qed

lemma strip_hd: "strip s \<noteq> [] \<Longrightarrow> \<not> py_isspace (hd (strip s))"
proof -
  assume a: "strip s \<noteq> []"
  then have l: "lstrip s \<noteq> []" by (auto simp: strip_def rstrip_def)
  from rstrip_hd [OF lstrip_hd [OF l] l] lstrip_hd [OF l]
  show ?thesis by (simp add: strip_def)
qed

lemma strip_last: "strip s \<noteq> [] \<Longrightarrow> \<not> py_isspace (last (strip s))"
  unfolding strip_def by (rule rstrip_last)

lemma strip_idem: "strip (strip s) = strip s"
  by (cases "strip s = []") (simp_all add: strip_id strip_hd strip_last strip_Nil)

lemma length_strip_le: "length (strip s) \<le> length s"
  unfolding strip_def rstrip_def lstrip_def
  by (metis length_dropWhile_le length_rev order_trans)

section \<open>Sentence splitting and greedy packing\<close>

lemma foldl_choice_less:
  "b < m \<Longrightarrow> set js \<subseteq> {..<m} \<Longrightarrow> foldl (\<lambda>best i. if P i best then i else best) b js < (m::nat)"
  by (induction js arbitrary: b) auto

lemma smallest_pair_index_less:
  assumes "2 \<le> length parts"
  shows "smallest_pair_index parts < length parts - 1"
  unfolding smallest_pair_index_def
proof (rule foldl_choice_less)
  show "0 < length parts - 1" using assms by simp
  show "set [1..<length parts - 1] \<subseteq> {..<length parts - 1}" by auto
qed

lemma longest_index_Inr:
  assumes "parts \<noteq> []"
  shows "\<exists>idx. (longest_index parts) = Inr idx \<and> idx < length parts"
proof -
  have "foldl (\<lambda>best i. if length (parts ! i) > length (parts ! best) then i else best)
          0 [1..<length parts] < length parts"
  proof (rule foldl_choice_less)
    show "0 < length parts" using assms by simp
    show "set [1..<length parts] \<subseteq> {..<length parts}" by auto
  qed
  then show ?thesis using assms by (simp add: longest_index_def)
qed

lemma split_sentences_last:
  "s \<noteq> [] \<Longrightarrow> last s \<noteq> 32 \<Longrightarrow> \<exists>x\<in>set (split_sentences s). last s \<in> set x"
proof (induction s rule: split_sentences.induct)
  case (1 a b cs)
  show ?case
  proof (cases "a = 46 \<and> b = 32")
    case True
    with "1.prems" have cs: "cs \<noteq> []" by auto
    then have "last (a # b # cs) = last cs" by simp
    with "1.IH"(1) [OF True cs] "1.prems" True show ?thesis by auto
  next
    case False
    have l: "last (a # b # cs) = last (b # cs)" by simp
    from "1.IH"(2) [OF False] "1.prems" l
    obtain x where x: "x \<in> set (split_sentences (b # cs))" "last (b # cs) \<in> set x" by auto
    then obtain p ps where ps: "split_sentences (b # cs) = p # ps" by (cases "split_sentences (b # cs)") auto
    with x have "\<exists>y\<in>set (cons_hd a (split_sentences (b # cs))). last (b # cs) \<in> set y" by auto
    moreover have "split_sentences (a # b # cs) = cons_hd a (split_sentences (b # cs))"
      using False by auto
    ultimately show ?thesis unfolding l by simp
  qed
qed simp_all

lemma split_sentences_has_segment:
  assumes "s \<noteq> []" and "\<not> py_isspace (last s)"
  shows "\<exists>x\<in>set (split_sentences s). strip x \<noteq> []"
proof -
  from assms(2) have "last s \<noteq> 32" by (auto simp: py_isspace_def)
  from split_sentences_last [OF assms(1) this] assms(2)
  show ?thesis by (auto simp: strip_eq_Nil_iff)
qed

lemma greedy_not_Nil:
  "parts \<noteq> [] \<or> current \<noteq> [] \<or> (\<exists>x\<in>set sents. strip x \<noteq> []) \<Longrightarrow> greedy parts current sents \<noteq> []"
  by (induction sents arbitrary: parts current) (auto simp: Let_def)

lemma greedy_parts_not_Nil: "strip summary \<noteq> [] \<Longrightarrow> greedy_parts (strip summary) \<noteq> []"
  unfolding greedy_parts_def
  by (rule greedy_not_Nil) (simp add: split_sentences_has_segment strip_last)

lemma strip_joined:
  assumes "strip a = a" "a \<noteq> []" "strip b \<noteq> []"
  shows "strip (a @ [46, 32] @ strip b) = a @ [46, 32] @ strip b"
proof (rule strip_id)
  show "a @ [46, 32] @ strip b \<noteq> []" using assms by simp
  show "\<not> py_isspace (hd (a @ [46, 32] @ strip b))"
    using assms strip_hd [of a] by simp
  show "\<not> py_isspace (last (a @ [46, 32] @ strip b))"
    using assms strip_last [of b] by simp
qed

lemma greedy_inv:
  assumes "\<forall>x\<in>set sents. strip x \<noteq> [] \<longrightarrow> Q (strip x)"
    and "\<forall>p\<in>set parts. P p" and "P current"
    and step1: "\<And>s. Q s \<Longrightarrow> s \<noteq> [] \<Longrightarrow> P s"
    and step2: "\<And>c s. P c \<Longrightarrow> c \<noteq> [] \<Longrightarrow> Q s \<Longrightarrow> s \<noteq> [] \<Longrightarrow>
                 length (c @ [46, 32] @ s) \<le> 245 \<Longrightarrow> P (c @ [46, 32] @ s)"
  shows "\<forall>p\<in>set (greedy parts current sents). P p"
  using assms(1-3)
proof (induction sents arbitrary: parts current)
  case Nil
  then show ?case by auto
next
  case (Cons sent rest)
  have r: "\<forall>x\<in>set rest. strip x \<noteq> [] \<longrightarrow> Q (strip x)" using Cons.prems(1) by simp
  show ?case
  proof (cases "strip sent = []")
    case True
    with Cons.IH [OF r Cons.prems(2,3)] show ?thesis by simp
  next
    case False
    then have q: "Q (strip sent)" using Cons.prems(1) by simp
    have p: "\<forall>p\<in>set (parts @ [current]). P p" using Cons.prems(2,3) by simp
    note closed = Cons.IH [OF r p step1 [OF q False]]
    show ?thesis
    proof (cases "current = []")
      case True
      with False closed Cons.IH [OF r Cons.prems(2) step1 [OF q False]] show ?thesis
        by (simp add: Let_def)
    next
      case cur: False
      show ?thesis
      proof (cases "length (current @ [46, 32] @ strip sent) \<le> 245")
        case True
        from Cons.IH [OF r Cons.prems(2) step2 [OF Cons.prems(3) cur q False True]] True False cur
        show ?thesis by (simp add: Let_def)
      next
        case False
        with \<open>strip sent \<noteq> []\<close> cur closed show ?thesis by (simp add: Let_def)
      qed
    qed
  qed
qed

lemma greedy_stripped:
  assumes "\<forall>p\<in>set parts. strip p = p" and "strip current = current"
  shows "\<forall>p\<in>set (greedy parts current sents). strip p = p"
proof (rule greedy_inv [where Q = "\<lambda>s. strip s = s"])
  show "\<forall>x\<in>set sents. strip x \<noteq> [] \<longrightarrow> strip (strip x) = strip x"
    by (simp add: strip_idem)
  show "\<forall>p\<in>set parts. strip p = p" by (rule assms(1))
  show "strip current = current" by (rule assms(2))
next
  fix c s :: pstr
  assume c: "strip c = c" "c \<noteq> []" and s: "strip s = s" "s \<noteq> []"
  from s have "strip s \<noteq> []" by simp
  from strip_joined [OF c this] s(1)
  show "strip (c @ [46, 32] @ s) = c @ [46, 32] @ s" by simp
qed

lemma greedy_budget:
  assumes "\<forall>x\<in>set sents. length (strip x) \<le> 245" and "\<forall>p\<in>set parts. length p \<le> 245"
    and "length current \<le> 245"
  shows "\<forall>p\<in>set (greedy parts current sents). length p \<le> 245"
proof (rule greedy_inv [where Q = "\<lambda>s. length s \<le> 245"])
  show "\<forall>x\<in>set sents. strip x \<noteq> [] \<longrightarrow> length (strip x) \<le> 245"
    using assms(1) by simp
  show "\<forall>p\<in>set parts. length p \<le> 245" by (rule assms(2))
  show "length current \<le> 245" by (rule assms(3))
qed

section \<open>The two normalisation loops\<close>

lemma split_loop_inv:
  assumes "parts \<noteq> []" and "\<forall>p\<in>set parts. P p"
    and halves: "\<And>p h. P p \<Longrightarrow> P (strip (take h p)) \<and> P (strip (drop h p))"
  shows "\<exists>ps. (split_loop parts n) = Inr ps \<and>
           length ps = max (length parts) (nat n) \<and> (\<forall>p\<in>set ps. P p)"
  using assms(1,2)
proof (induction parts n rule: split_loop.induct)
  case (1 parts n_parts)
  show ?case
  proof (cases "int (length parts) < n_parts")
    case False
    then have "max (length parts) (nat n_parts) = length parts" by arith
    with False "1.prems" show ?thesis by (simp add: split_loop.simps [of parts])
  next
    case True
    from longest_index_Inr [OF "1.prems"(1)]
    obtain idx where idx: "(longest_index parts) = Inr idx" "idx < length parts"
      by blast
    define part where "part = parts ! idx"
    define half where "half = length part div 2"
    define parts' where
      "parts' = take idx parts @ [strip (take half part), strip (drop half part)] @ drop (Suc idx) parts"
    have P: "P part" using "1.prems"(2) idx(2) by (simp add: part_def)
    have ne: "parts' \<noteq> []" by (simp add: parts'_def)
    have len: "length parts' = Suc (length parts)" using idx(2) by (simp add: parts'_def)
    have all: "\<forall>p\<in>set parts'. P p"
      using "1.prems"(2) halves [OF P, of half]
      by (auto simp: parts'_def dest: in_set_takeD in_set_dropD)
    from "1.IH" [OF True idx(1) part_def half_def, folded parts'_def, OF ne all]
    obtain ps where ps: "(split_loop parts' n_parts) = Inr ps"
      "length ps = max (length parts') (nat n_parts)" "\<forall>p\<in>set ps. P p" by blast
    have "(split_loop parts n_parts) = split_loop parts' n_parts"
      using True idx(1)
      by (subst split_loop.simps) (simp add: Let_def parts'_def part_def half_def)
    with ps len True show ?thesis by (auto simp: max_def)
  qed
qed

lemma merge_loop_inv:
  assumes "\<forall>p\<in>set parts. P p"
    and merged: "\<And>a b. P a \<Longrightarrow> P b \<Longrightarrow> P (strip (a @ [32] @ b))"
  shows "(\<forall>p\<in>set (merge_loop parts n). P p) \<and>
         length (merge_loop parts n) =
           (if n < int (length parts) then max (nat n) (min 1 (length parts)) else length parts)"
  using assms(1)
proof (induction parts n rule: merge_loop.induct)
  case (1 parts n_parts)
  show ?case
  proof (cases "int (length parts) > n_parts")
    case False
    with "1.prems" show ?thesis by (simp add: merge_loop.simps [of parts])
  next
    case True
    show ?thesis
    proof (cases "length parts < 2")
      case short: True
      with True "1.prems" show ?thesis by (auto simp: merge_loop.simps [of parts] max_def min_def)
    next
      case False
      define idx where "idx = smallest_pair_index parts"
      define merged where "merged = strip (parts ! idx @ [32] @ parts ! (idx + 1))"
      define parts' where "parts' = take idx parts @ [merged] @ drop (idx + 2) parts"
      have idx: "idx < length parts - 1"
        using False smallest_pair_index_less [of parts] by (simp add: idx_def)
      have "P merged" unfolding merged_def using "1.prems" idx by (intro merged) simp_all
      then have all: "\<forall>p\<in>set parts'. P p"
        using "1.prems" by (auto simp: parts'_def dest: in_set_takeD in_set_dropD)
      have len: "length parts' = length parts - 1" using idx by (simp add: parts'_def)
      note IH = "1.IH" [OF True False idx_def merged_def, folded parts'_def, OF all]
      have "merge_loop parts n_parts = merge_loop parts' n_parts"
        using True False
        by (subst merge_loop.simps) (simp add: Let_def parts'_def merged_def idx_def)
      with IH len True False show ?thesis by (auto simp: max_def min_def split: if_splits)
    qed
  qed
qed

lemma set_slice_to: "set (slice_to xs k) \<subseteq> set xs"
  by (auto simp: slice_to_def dest: in_set_takeD)

lemma length_slice_to:
  "length (slice_to xs k) = (if k < 0 then nat (int (length xs) + k) else min (nat k) (length xs))"
  by (auto simp: slice_to_def)

lemma chunk_text_inv:
  assumes e: "P []"
    and seg: "\<And>x. P (strip x)"
    and joined: "\<And>c s. P c \<Longrightarrow> c \<noteq> [] \<Longrightarrow> strip s = s \<Longrightarrow> s \<noteq> [] \<Longrightarrow> P (c @ [46, 32] @ s)"
  shows "\<exists>ps. (chunk_text summary n) = Inr ps \<and>
           length ps = nat n \<and> (\<forall>p\<in>set ps. P p)"
proof (cases "strip summary = []")
  case True
  then show ?thesis using e by (simp add: chunk_text_def)
next
  case False
  have g: "\<forall>p\<in>set (greedy_parts (strip summary)). P p"
    unfolding greedy_parts_def
  proof (rule greedy_inv [where Q = "\<lambda>s. strip s = s"])
    show "\<forall>x\<in>set (split_sentences (strip summary)). strip x \<noteq> [] \<longrightarrow> strip (strip x) = strip x"
      by (simp add: strip_idem)
    show "\<forall>p\<in>set []. P p" by simp
    show "P []" by (rule e)
    show "P s" if "strip s = s" for s using seg [of s] that by simp
    show "P (c @ [46, 32] @ s)" if "P c" "c \<noteq> []" "strip s = s" "s \<noteq> []" for c s
      using that by (rule joined)
  qed
  have h: "P (strip (take k p)) \<and> P (strip (drop k p))" for p k
    by (simp add: seg)
  have mg: "P (strip (a @ [32] @ b))" for a b
    by (rule seg)
  note gne = greedy_parts_not_Nil [OF False]
  from split_loop_inv [where P = P, OF gne g h, of n]
  obtain ps where ps: "split_loop (greedy_parts (strip summary)) n = Inr ps"
    and lps: "length ps = max (length (greedy_parts (strip summary))) (nat n)"
    and pps: "\<forall>p\<in>set ps. P p"
    by (elim exE conjE)
  have "0 < length (greedy_parts (strip summary))" using gne by simp
  then have ne: "0 < length ps" using lps by arith
  note m = merge_loop_inv [where P = P, OF pps mg, of n]
  have nle: "nat n \<le> length ps" using lps by simp
  have "length (slice_to (merge_loop ps n) n) = nat n"
  proof (cases "n < int (length ps)")
    case True
    with m have "length (merge_loop ps n) = max (nat n) (min 1 (length ps))" by simp
    with ne True show ?thesis by (simp add: length_slice_to max_def min_def)
  next
    case False
    with m have "length (merge_loop ps n) = length ps" by simp
    with False nle ne show ?thesis by (simp add: length_slice_to min_def)
  qed
  moreover have "\<forall>p\<in>set (slice_to (merge_loop ps n) n). P p"
  proof
    fix p assume "p \<in> set (slice_to (merge_loop ps n) n)"
    then have "p \<in> set (merge_loop ps n)" using set_slice_to [of "merge_loop ps n" n] by (rule rev_subsetD)
    with m show "P p" by simp
  qed
  ultimately show ?thesis using False ps by (simp add: chunk_text_def)
qed

lemma split_loop_enough: "\<not> int (length parts) < n \<Longrightarrow> split_loop parts n = Inr parts"
  by (simp add: split_loop.simps [of parts])

lemma merge_loop_enough: "\<not> n < int (length parts) \<Longrightarrow> merge_loop parts n = parts"
  by (simp add: merge_loop.simps [of parts])

lemma slice_to_all: "int (length xs) \<le> k \<Longrightarrow> slice_to xs k = xs"
  by (simp add: slice_to_def)

lemma split_sentences_no_delim: "\<forall>c\<in>set s. c \<noteq> 32 \<Longrightarrow> split_sentences s = [s]"
  by (induction s rule: split_sentences.induct) auto

lemma chunk_text_within_budget:
  assumes ne: "strip summary \<noteq> []"
    and segs: "\<forall>x\<in>set (split_sentences (strip summary)). length (strip x) \<le> 245"
    and few: "int (length (greedy_parts (strip summary))) \<le> n"
  shows "\<exists>ps. chunk_text summary n = Inr ps \<and> (\<forall>p\<in>set ps. length p \<le> 245)"
proof -
  have g: "\<forall>p\<in>set (greedy_parts (strip summary)). length p \<le> 245"
    unfolding greedy_parts_def using segs by (intro greedy_budget) simp_all
  have "\<exists>ps. split_loop (greedy_parts (strip summary)) n = Inr ps \<and>
          length ps = max (length (greedy_parts (strip summary))) (nat n) \<and>
          (\<forall>p\<in>set ps. length p \<le> 245)"
  proof (rule split_loop_inv [where P = "\<lambda>p. length p \<le> 245"])
    show "greedy_parts (strip summary) \<noteq> []" by (rule greedy_parts_not_Nil [OF ne])
    show "\<forall>p\<in>set (greedy_parts (strip summary)). length p \<le> 245" by (rule g)
    show "length (strip (take h p)) \<le> 245 \<and> length (strip (drop h p)) \<le> 245"
      if "length p \<le> 245" for p :: pstr and h
      using length_strip_le [of "take h p"] length_strip_le [of "drop h p"] that by simp
  qed
  then obtain ps where ps: "split_loop (greedy_parts (strip summary)) n = Inr ps"
    and lps: "length ps = max (length (greedy_parts (strip summary))) (nat n)"
    and pps: "\<forall>p\<in>set ps. length p \<le> 245"
    by (elim exE conjE)
  from lps few have le: "int (length ps) \<le> n" by arith
  then have "slice_to (merge_loop ps n) n = ps"
    by (simp add: merge_loop_enough slice_to_all)
  with ne ps pps show ?thesis by (simp add: chunk_text_def)
qed

lemma chunk_text_single_long_fragment:
  assumes nospace: "\<forall>c\<in>set s. \<not> py_isspace c" and long: "245 < length s"
  shows "greedy_parts (strip s) = [[], s] \<and> chunk_text s 2 = Inr [[], s]"
proof -
  from long have ne: "s \<noteq> []" by auto
  have "\<not> py_isspace (hd s)" using nospace ne hd_in_set [OF ne] by blast
  moreover have "\<not> py_isspace (last s)" using nospace last_in_set [OF ne] by blast
  ultimately have st: "strip s = s" using ne by (intro strip_id)
  have "\<forall>c\<in>set s. c \<noteq> 32"
  proof
    fix c assume "c \<in> set s"
    with nospace have "\<not> py_isspace c" by simp
    then show "c \<noteq> 32" by (auto simp: py_isspace_def)
  qed
  then have sp: "split_sentences s = [s]" by (rule split_sentences_no_delim)
  have over: "260 < int (length s) + 15" using long by simp
  have "greedy [] [] [s] = [[], s]"
    using ne over by (simp add: st Let_def)
  then have g: "greedy_parts s = [[], s]" by (simp add: greedy_parts_def sp)
  have "split_loop [[], s] 2 = Inr [[], s]" by (simp add: split_loop_enough)
  moreover have "merge_loop [[], s] 2 = [[], s]" by (simp add: merge_loop_enough)
  moreover have "slice_to [[], s] 2 = [[], s]" by (simp add: slice_to_all)
  ultimately have "chunk_text s 2 = Inr [[], s]"
    using ne by (simp add: chunk_text_def st g)
  with g show ?thesis by (simp add: st)
qed

lemma split_ws_blank: "\<forall>c\<in>set s. py_isspace c \<Longrightarrow> split_ws [] s = []"
  by (induction s) simp_all

lemma split_ws_tokens:
  "\<forall>c\<in>set cur. \<not> py_isspace c \<Longrightarrow>
   \<forall>w\<in>set (split_ws cur s). w \<noteq> [] \<and> (\<forall>c\<in>set w. \<not> py_isspace c)"
proof (induction s arbitrary: cur)
  case Nil
  then show ?case by simp
next
  case (Cons a s)
  show ?case
  proof (cases "py_isspace a")
    case True
    from Cons.IH [of "[]"] Cons.prems True show ?thesis by simp
  next
    case False
    with Cons.prems have "\<forall>c\<in>set (cur @ [a]). \<not> py_isspace c" by simp
    from Cons.IH [OF this] False show ?thesis by simp
  qed
qed

lemma tweets_loop_map:
  "tweets_loop t n acc i parts =
   acc @ map (\<lambda>k. let emoji = emojis ! nat ((i + int k - 1) mod int (length emojis));
                      header = emoji @ [32] @ str_int (i + int k) @ [47] @ str_int n @ [32]
                  in if i + int k = 1 then header @ (strip t @ hook_suffix) @ [10] @ strip (parts ! k)
                     else header @ strip (parts ! k)) [0..<length parts]"
proof (induction parts arbitrary: acc i)
  case Nil
  show ?case by simp
next
  case (Cons part rest)
  have shift: "i + 1 + int k = i + int (Suc k)" for k by simp
  show ?case
    unfolding length_Cons map_upt_Suc
    by (simp add: Cons.IH Let_def add.commute add.left_commute del: upt_Suc)
qed

section \<open>Counting non-whitespace characters through the split loop\<close>

lemma filter_dropWhile_not:
  "filter (\<lambda>c. \<not> P c) (dropWhile P s) = filter (\<lambda>c. \<not> P c) s"
  by (induction s) simp_all

lemma nonspace_strip:
  "filter (\<lambda>c. \<not> py_isspace c) (strip s) = filter (\<lambda>c. \<not> py_isspace c) s"
proof -
  have "filter (\<lambda>c. \<not> py_isspace c) (rstrip t) = filter (\<lambda>c. \<not> py_isspace c) t" for t
    unfolding rstrip_def rev_filter [symmetric] filter_dropWhile_not by simp
  then show ?thesis by (simp add: strip_def lstrip_def filter_dropWhile_not)
qed

lemma nonspace_halves:
  "length (filter Q (strip (take h p))) + length (filter Q (strip (drop h p)))
     = length (filter Q p)" if "Q = (\<lambda>c. \<not> py_isspace c)"
proof -
  have "filter Q (take h p) @ filter Q (drop h p) = filter Q p"
    by (metis append_take_drop_id filter_append)
  then have "length (filter Q (take h p)) + length (filter Q (drop h p)) = length (filter Q p)"
    by (metis length_append)
  then show ?thesis unfolding that nonspace_strip .
qed

lemma sum_list_replace_two:
  assumes "idx < length ps" and "f a + f b = f (ps ! idx)"
  shows "sum_list (map f (take idx ps @ [a, b] @ drop (Suc idx) ps)) = (sum_list (map f ps) :: nat)"
proof -
  have "ps = take idx ps @ ps ! idx # drop (Suc idx) ps"
    using assms(1) by (rule id_take_nth_drop)
  then have "sum_list (map f ps)
      = sum_list (map f (take idx ps)) + f (ps ! idx) + sum_list (map f (drop (Suc idx) ps))"
    by (metis (no_types, lifting) add.assoc map_append list.simps(9) sum_list.Cons sum_list.append)
  then show ?thesis using assms(2) by simp
qed

lemma sum_list_le_length:
  "\<forall>p\<in>set ps. f p \<le> (1::nat) \<Longrightarrow> sum_list (map f ps) \<le> length ps"
  by (induction ps) auto

lemma length_le_sum_list:
  "\<forall>p\<in>set ps. (1::nat) \<le> f p \<Longrightarrow> length ps \<le> sum_list (map f ps)"
  by (induction ps) auto

lemma foldl_argmax:
  fixes f :: "nat \<Rightarrow> nat"
  defines "r \<equiv> \<lambda>b js. foldl (\<lambda>best i. if f i > f best then i else best) b js"
  shows "f b \<le> f (r b js) \<and> (\<forall>j\<in>set js. f j \<le> f (r b js))"
proof (induction js rule: rev_induct)
  case Nil
  show ?case by (simp add: r_def)
next
  case (snoc j js)
  have "r b (js @ [j]) = (if f j > f (r b js) then j else r b js)" by (simp add: r_def)
  with snoc show ?case by auto
qed

lemma longest_index_longest:
  assumes "longest_index parts = Inr idx"
  shows "\<forall>p\<in>set parts. length p \<le> length (parts ! idx)"
proof
  fix p assume "p \<in> set parts"
  then obtain i where i: "i < length parts" "p = parts ! i" by (auto simp: in_set_conv_nth)
  from assms have idx: "idx = foldl (\<lambda>best i. if length (parts ! i) > length (parts ! best) then i else best)
                  0 [1..<length parts]"
    by (auto simp: longest_index_def split: if_splits)
  note m = foldl_argmax [of "\<lambda>i. length (parts ! i)" 0 "[1..<length parts]", folded idx]
  show "length p \<le> length (parts ! idx)"
  proof (cases "i = 0")
    case True
    with m i show ?thesis by simp
  next
    case False
    with i have "i \<in> set [1..<length parts]" by simp
    with m i show ?thesis by blast
  qed
qed

lemma stripped_ends:
  assumes "strip p = p" and "p \<noteq> []"
  shows "\<not> py_isspace (hd p)" and "\<not> py_isspace (last p)"
  using strip_hd [of p] strip_last [of p] assms by simp_all

lemma split_halves_good:
  assumes "strip p = p" and "2 \<le> length p"
  shows "strip (take (length p div 2) p) \<noteq> [] \<and> strip (drop (length p div 2) p) \<noteq> []"
proof -
  let ?h = "length p div 2"
  from assms(2) have ne: "p \<noteq> []" by auto
  from assms(2) have h: "0 < ?h" "?h < length p" by simp_all
  have "hd (take ?h p) = hd p" using h(1) by (simp add: hd_take)
  moreover have "take ?h p \<noteq> []" using h(1) ne by simp
  ultimately have "hd p \<in> set (take ?h p)" by (metis hd_in_set)
  then have a: "strip (take ?h p) \<noteq> []"
    using stripped_ends(1) [OF assms(1) ne] by (auto simp: strip_eq_Nil_iff)
  have "last (drop ?h p) = last p" using h(2) by simp
  moreover have "drop ?h p \<noteq> []" using h(2) by simp
  ultimately have "last p \<in> set (drop ?h p)" by (metis last_in_set)
  then have b: "strip (drop ?h p) \<noteq> []"
    using stripped_ends(2) [OF assms(1) ne] by (auto simp: strip_eq_Nil_iff)
  from a b show ?thesis by simp
qed

lemma greedy_no_empty_first:
  assumes "current = [] \<longrightarrow>
             (\<forall>seg more. filter (\<lambda>s. s \<noteq> []) (map strip sents) = seg # more \<longrightarrow> length seg \<le> 245)"
    and "\<forall>p\<in>set parts. p \<noteq> []"
  shows "\<forall>p\<in>set (greedy parts current sents). p \<noteq> []"
  using assms
proof (induction sents arbitrary: parts current)
  case Nil
  then show ?case by auto
next
  case (Cons sent rest)
  show ?case
  proof (cases "strip sent = []")
    case True
    with Cons.prems have "current = [] \<longrightarrow>
        (\<forall>seg more. filter (\<lambda>s. s \<noteq> []) (map strip rest) = seg # more \<longrightarrow> length seg \<le> 245)"
      by simp
    from Cons.IH [OF this Cons.prems(2)] True show ?thesis by simp
  next
    case False
    show ?thesis
    proof (cases "current = []")
      case True
      with Cons.prems(1) False have "length (strip sent) \<le> 245" by simp
      moreover have "strip sent = [] \<longrightarrow>
        (\<forall>seg more. filter (\<lambda>s. s \<noteq> []) (map strip rest) = seg # more \<longrightarrow> length seg \<le> 245)"
        using False by simp
      note Cons.IH [OF this Cons.prems(2)]
      ultimately show ?thesis using True False by (simp add: Let_def)
    next
      case cur: False
      have c1: "current @ [46, 32] @ strip sent = [] \<longrightarrow>
        (\<forall>seg more. filter (\<lambda>s. s \<noteq> []) (map strip rest) = seg # more \<longrightarrow> length seg \<le> 245)"
        using cur by simp
      have c2: "strip sent = [] \<longrightarrow>
        (\<forall>seg more. filter (\<lambda>s. s \<noteq> []) (map strip rest) = seg # more \<longrightarrow> length seg \<le> 245)"
        using False by simp
      have p: "\<forall>p\<in>set (parts @ [current]). p \<noteq> []" using Cons.prems(2) cur by simp
      from Cons.IH [OF c1 Cons.prems(2)] Cons.IH [OF c2 p] False cur show ?thesis
        by (simp add: Let_def)
    qed
  qed
qed

lemma split_loop_list_inv:
  assumes "parts \<noteq> []" and "I parts"
    and step: "\<And>ps idx. I ps \<Longrightarrow> int (length ps) < n \<Longrightarrow> longest_index ps = Inr idx \<Longrightarrow>
      idx < length ps \<Longrightarrow>
      I (take idx ps @ [strip (take (length (ps ! idx) div 2) (ps ! idx)),
                        strip (drop (length (ps ! idx) div 2) (ps ! idx))] @ drop (Suc idx) ps)"
  shows "\<exists>qs. split_loop parts n = Inr qs \<and> I qs"
  using assms
proof (induction parts n rule: split_loop.induct)
  case (1 parts n_parts)
  show ?case
  proof (cases "int (length parts) < n_parts")
    case False
    with "1.prems" show ?thesis by (simp add: split_loop.simps [of parts])
  next
    case True
    from longest_index_Inr [OF "1.prems"(1)]
    obtain idx where idx: "longest_index parts = Inr idx" "idx < length parts"
      by blast
    define part where "part = parts ! idx"
    define half where "half = length part div 2"
    define parts' where
      "parts' = take idx parts @ [strip (take half part), strip (drop half part)] @ drop (Suc idx) parts"
    have ne: "parts' \<noteq> []" by (simp add: parts'_def)
    have I': "I parts'"
      using "1.prems"(3) [OF "1.prems"(2) True idx] by (simp add: parts'_def part_def half_def)
    from "1.IH" [OF True idx(1) part_def half_def, folded parts'_def, OF ne I' "1.prems"(3)]
    obtain qs where qs: "split_loop parts' n_parts = Inr qs" "I qs" by blast
    have "split_loop parts n_parts = split_loop parts' n_parts"
      using True idx(1)
      by (subst split_loop.simps) (simp add: Let_def parts'_def part_def half_def)
    with qs show ?thesis by simp
  qed
qed

lemma split_loop_nonspace:
  assumes "parts \<noteq> []"
  shows "\<exists>qs. split_loop parts n = Inr qs \<and>
           sum_list (map (\<lambda>p. length (filter (\<lambda>c. \<not> py_isspace c) p)) qs)
             = sum_list (map (\<lambda>p. length (filter (\<lambda>c. \<not> py_isspace c) p)) parts)"
proof (rule split_loop_list_inv [OF assms])
  show "sum_list (map (\<lambda>p. length (filter (\<lambda>c. \<not> py_isspace c) p)) parts)
      = sum_list (map (\<lambda>p. length (filter (\<lambda>c. \<not> py_isspace c) p)) parts)" ..
next
  fix ps :: "pstr list" and idx
  assume a: "sum_list (map (\<lambda>p. length (filter (\<lambda>c. \<not> py_isspace c) p)) ps)
      = sum_list (map (\<lambda>p. length (filter (\<lambda>c. \<not> py_isspace c) p)) parts)"
    and idx: "idx < length ps"
  have "sum_list (map (\<lambda>p. length (filter (\<lambda>c. \<not> py_isspace c) p))
          (take idx ps @ [strip (take (length (ps ! idx) div 2) (ps ! idx)),
                          strip (drop (length (ps ! idx) div 2) (ps ! idx))] @ drop (Suc idx) ps))
      = sum_list (map (\<lambda>p. length (filter (\<lambda>c. \<not> py_isspace c) p)) ps)"
    using idx by (rule sum_list_replace_two) (rule nonspace_halves [OF refl])
  with a show "sum_list (map (\<lambda>p. length (filter (\<lambda>c. \<not> py_isspace c) p))
          (take idx ps @ [strip (take (length (ps ! idx) div 2) (ps ! idx)),
                          strip (drop (length (ps ! idx) div 2) (ps ! idx))] @ drop (Suc idx) ps))
      = sum_list (map (\<lambda>p. length (filter (\<lambda>c. \<not> py_isspace c) p)) parts)"
    by simp
qed

lemma good_nonspace:
  assumes "strip p = p" and "p \<noteq> []"
  shows "1 \<le> length (filter (\<lambda>c. \<not> py_isspace c) p)"
proof -
  have "filter (\<lambda>c. \<not> py_isspace c) p \<noteq> []"
    using stripped_ends(1) [OF assms] hd_in_set [OF assms(2)]
    by (auto simp: filter_empty_conv)
  then show ?thesis by (simp add: Suc_le_eq)
qed

lemma split_loop_good:
  assumes ne: "parts \<noteq> []" and good: "\<forall>p\<in>set parts. strip p = p \<and> p \<noteq> []"
    and enough: "n \<le> int (sum_list (map (\<lambda>p. length (filter (\<lambda>c. \<not> py_isspace c) p)) parts))"
  shows "\<exists>qs. split_loop parts n = Inr qs \<and> (\<forall>p\<in>set qs. strip p = p \<and> p \<noteq> [])"
proof -
  let ?w = "\<lambda>p. length (filter (\<lambda>c. \<not> py_isspace c) p)"
  let ?I = "\<lambda>ps. (\<forall>p\<in>set ps. strip p = p \<and> p \<noteq> []) \<and> sum_list (map ?w ps) = sum_list (map ?w parts)"
  have "\<exists>qs. split_loop parts n = Inr qs \<and> ?I qs"
  proof (rule split_loop_list_inv [OF ne])
    show "?I parts" using good by (intro conjI refl)
  next
    fix ps :: "pstr list" and idx
    assume I0: "?I ps" and less: "int (length ps) < n"
      and li: "longest_index ps = Inr idx" and idx: "idx < length ps"
    from I0 have I: "\<forall>p\<in>set ps. strip p = p \<and> p \<noteq> []"
      and W: "sum_list (map ?w ps) = sum_list (map ?w parts)" by blast+
    let ?part = "ps ! idx"
    let ?a = "strip (take (length ?part div 2) ?part)"
    let ?b = "strip (drop (length ?part div 2) ?part)"
    from less enough have "length ps < sum_list (map ?w ps)" unfolding W by linarith
    then have "\<not> (\<forall>p\<in>set ps. ?w p \<le> 1)"
      using sum_list_le_length [of ps ?w] by linarith
    then obtain p where p: "p \<in> set ps" "\<not> ?w p \<le> 1" by blast
    have "?w p \<le> length p" by simp
    moreover have "length p \<le> length ?part"
      using longest_index_longest [OF li] p(1) by blast
    ultimately have long: "2 \<le> length ?part" using p(2) by linarith
    have "?part \<in> set ps" using idx by (rule nth_mem)
    with I have sp: "strip ?part = ?part" by blast
    from split_halves_good [OF sp long] have ab: "?a \<noteq> []" "?b \<noteq> []" by simp_all
    have goodab: "strip ?a = ?a \<and> ?a \<noteq> []" "strip ?b = ?b \<and> ?b \<noteq> []"
      using ab by (simp_all add: strip_idem)
    have all: "\<forall>q\<in>set (take idx ps @ [?a, ?b] @ drop (Suc idx) ps). strip q = q \<and> q \<noteq> []"
    proof
      fix q assume "q \<in> set (take idx ps @ [?a, ?b] @ drop (Suc idx) ps)"
      then consider "q \<in> set (take idx ps)" | "q = ?a" | "q = ?b" | "q \<in> set (drop (Suc idx) ps)"
        by auto
      then show "strip q = q \<and> q \<noteq> []"
      proof cases
        case 1
        then have "q \<in> set ps" by (rule in_set_takeD)
        with I show ?thesis by blast
      next
        case 2
        show ?thesis unfolding 2 by (rule goodab(1))
      next
        case 3
        show ?thesis unfolding 3 by (rule goodab(2))
      next
        case 4
        then have "q \<in> set ps" by (rule in_set_dropD)
        with I show ?thesis by blast
      qed
    qed
    have "sum_list (map ?w (take idx ps @ [?a, ?b] @ drop (Suc idx) ps)) = sum_list (map ?w ps)"
      using idx by (rule sum_list_replace_two) (rule nonspace_halves [OF refl])
    then have "sum_list (map ?w (take idx ps @ [?a, ?b] @ drop (Suc idx) ps)) = sum_list (map ?w parts)"
      using W by (rule trans)
    with all show "?I (take idx ps @ [?a, ?b] @ drop (Suc idx) ps)" by (rule conjI)
  qed
  then show ?thesis by blast
qed

lemma chunk_text_split_regime:
  assumes ne: "strip summary \<noteq> []" and few: "int (length (greedy_parts (strip summary))) \<le> n"
  shows "\<exists>qs. split_loop (greedy_parts (strip summary)) n = Inr qs \<and> chunk_text summary n = Inr qs"
proof -
  have "\<exists>ps. split_loop (greedy_parts (strip summary)) n = Inr ps \<and>
          length ps = max (length (greedy_parts (strip summary))) (nat n) \<and> (\<forall>p\<in>set ps. True)"
    by (rule split_loop_inv) (simp_all add: greedy_parts_not_Nil [OF ne])
  then obtain ps where ps: "split_loop (greedy_parts (strip summary)) n = Inr ps"
    and lps: "length ps = max (length (greedy_parts (strip summary))) (nat n)"
    by (elim exE conjE)
  from lps few have "int (length ps) \<le> n" by arith
  then have "slice_to (merge_loop ps n) n = ps"
    by (simp add: merge_loop_enough slice_to_all)
  with ne ps show ?thesis by (simp add: chunk_text_def)
qed

lemma chunk_text_merge_regime_nonempty:
  assumes ne: "strip summary \<noteq> []"
    and good: "\<forall>p\<in>set (greedy_parts (strip summary)). strip p = p \<and> p \<noteq> []"
    and many: "n \<le> int (length (greedy_parts (strip summary)))"
  shows "\<exists>ps. chunk_text summary n = Inr ps \<and> (\<forall>p\<in>set ps. p \<noteq> [])"
proof -
  let ?g = "greedy_parts (strip summary)"
  have g: "\<forall>p\<in>set ?g. strip p \<noteq> []"
  proof
    fix p assume "p \<in> set ?g"
    with good have "strip p = p" "p \<noteq> []" by blast+
    then show "strip p \<noteq> []" by simp
  qed
  have mg: "strip (strip (a @ [32] @ b)) \<noteq> []" if "strip a \<noteq> []" for a b
    using that unfolding strip_idem by (auto simp: strip_eq_Nil_iff)
  have s: "split_loop ?g n = Inr ?g" using many by (simp add: split_loop_enough)
  from merge_loop_inv [where P = "\<lambda>p. strip p \<noteq> []", OF g mg, of n]
  have m: "\<forall>p\<in>set (merge_loop ?g n). strip p \<noteq> []" by simp
  have "\<forall>p\<in>set (slice_to (merge_loop ?g n) n). p \<noteq> []"
  proof
    fix p assume "p \<in> set (slice_to (merge_loop ?g n) n)"
    then have "p \<in> set (merge_loop ?g n)"
      using set_slice_to [of "merge_loop ?g n" n] by (rule rev_subsetD)
    with m have "strip p \<noteq> []" by simp
    then show "p \<noteq> []" by (auto simp: strip_Nil)
  qed
  with ne s show ?thesis by (simp add: chunk_text_def)
qed

lemma chunk_text_nonempty_iff:
  assumes ne: "strip summary \<noteq> []" and n1: "1 \<le> n"
    and first: "\<forall>seg more. filter (\<lambda>s. s \<noteq> []) (map strip (split_sentences (strip summary)))
                  = seg # more \<longrightarrow> length seg \<le> 245"
    and res: "chunk_text summary n = Inr parts"
  shows "(\<forall>p\<in>set parts. p \<noteq> []) \<longleftrightarrow>
         n \<le> int (sum_list (map (\<lambda>p. length (filter (\<lambda>c. \<not> py_isspace c) p))
                       (greedy_parts (strip summary))))"
proof -
  let ?g = "greedy_parts (strip summary)"
  let ?w = "\<lambda>p. length (filter (\<lambda>c. \<not> py_isspace c) p)"
  have g1: "\<forall>p\<in>set ?g. p \<noteq> []"
    unfolding greedy_parts_def using first by (intro greedy_no_empty_first) simp_all
  have g2: "\<forall>p\<in>set ?g. strip p = p"
    unfolding greedy_parts_def by (intro greedy_stripped) (simp_all add: strip_Nil)
  from g1 g2 have good: "\<forall>p\<in>set ?g. strip p = p \<and> p \<noteq> []" by blast
  have "\<forall>p\<in>set ?g. 1 \<le> ?w p" using good good_nonspace by blast
  then have gw: "length ?g \<le> sum_list (map ?w ?g)" by (rule length_le_sum_list)
  show ?thesis
  proof (cases "n \<le> int (length ?g)")
    case True
    from chunk_text_merge_regime_nonempty [OF ne good True] res
    have "\<forall>p\<in>set parts. p \<noteq> []" by simp
    moreover from True gw have "n \<le> int (sum_list (map ?w ?g))" by linarith
    ultimately show ?thesis by blast
  next
    case False
    then have few: "int (length ?g) \<le> n" by simp
    from chunk_text_split_regime [OF ne few] res
    have sl: "split_loop ?g n = Inr parts" by simp
    note gne = greedy_parts_not_Nil [OF ne]
    from split_loop_nonspace [OF gne, of n] sl
    have W: "sum_list (map ?w parts) = sum_list (map ?w ?g)" by simp
    have "\<exists>ps. split_loop ?g n = Inr ps \<and> length ps = max (length ?g) (nat n) \<and>
            (\<forall>p\<in>set ps. strip p = p)"
      using gne g2 by (rule split_loop_inv) (simp add: strip_idem)
    with sl have len: "length parts = max (length ?g) (nat n)"
      and st: "\<forall>p\<in>set parts. strip p = p" by simp_all
    from len few n1 have len': "int (length parts) = n" by arith
    show ?thesis
    proof
      assume "\<forall>p\<in>set parts. p \<noteq> []"
      with st have "\<forall>p\<in>set parts. 1 \<le> ?w p" using good_nonspace by blast
      then have "length parts \<le> sum_list (map ?w parts)" by (rule length_le_sum_list)
      with W len' show "n \<le> int (sum_list (map ?w ?g))" by linarith
    next
      assume "n \<le> int (sum_list (map ?w ?g))"
      from split_loop_good [OF gne good this] sl
      show "\<forall>p\<in>set parts. p \<noteq> []" by simp
    qed
  qed
qed


section \<open>Concrete runs\<close>

lemmas run_simps = chunk_text_def ascii_def strip_def lstrip_def rstrip_def py_isspace_def
  greedy_parts_def split_loop.simps longest_index_def merge_loop.simps smallest_pair_index_def
  slice_to_def Let_def

lemma run_a_b: "chunk_text (ascii '' a. b '') 2 = Inr [ascii ''a.'', ascii ''b'']"
  by (simp add: run_simps)

lemma run_single_a: "chunk_text [97] 2 = Inr [[], [97]]"
  by (simp add: run_simps)

lemma split_sentences_append:
  "\<forall>c\<in>set a. c \<noteq> 46 \<Longrightarrow> split_sentences (a @ 46 # 32 # b) = a # split_sentences b"
proof (induction a)
  case Nil
  show ?case by simp
next
  case (Cons x xs)
  then have IH: "split_sentences (xs @ 46 # 32 # b) = xs # split_sentences b" by simp
  from Cons.prems have x: "x \<noteq> 46" by simp
  obtain y ys where ys: "xs @ 46 # 32 # b = y # ys" by (cases xs) auto
  have "split_sentences (x # y # ys) = cons_hd x (split_sentences (y # ys))"
    using x by simp
  then show ?case using IH ys by simp
qed

lemma strip_no_space: "s \<noteq> [] \<Longrightarrow> \<forall>c\<in>set s. \<not> py_isspace c \<Longrightarrow> strip s = s"
  by (rule strip_id) (simp_all add: hd_in_set last_in_set)

lemma chunk_text_two_fragments_merged:
  assumes a: "a \<noteq> []" "\<forall>c\<in>set a. \<not> py_isspace c \<and> c \<noteq> 46"
    and b: "b \<noteq> []" "\<forall>c\<in>set b. \<not> py_isspace c"
    and la: "length a \<le> 245" and lb: "length b \<le> 245" and lab: "243 < length a + length b"
  shows "chunk_text (a @ [46, 32] @ b) 1 = Inr [a @ [32] @ b]"
proof -
  have a': "\<forall>c\<in>set a. \<not> py_isspace c" "\<forall>c\<in>set a. c \<noteq> 46" using a(2) by blast+
  have sa: "strip a = a" using a(1) a'(1) by (rule strip_no_space)
  have sb: "strip b = b" using b by (rule strip_no_space)
  have ha: "\<not> py_isspace (hd a)" using a'(1) hd_in_set [OF a(1)] by blast
  have lb': "\<not> py_isspace (last b)" using b(2) last_in_set [OF b(1)] by blast
  have st: "strip (a @ 46 # 32 # b) = a @ 46 # 32 # b"
    by (rule strip_id) (simp_all add: ha lb' a(1) b(1))
  have "\<forall>c\<in>set b. c \<noteq> 32"
  proof
    fix c assume "c \<in> set b"
    with b(2) have "\<not> py_isspace c" by simp
    then show "c \<noteq> 32" by (auto simp: py_isspace_def)
  qed
  then have "split_sentences b = [b]" by (rule split_sentences_no_delim)
  then have sp: "split_sentences (a @ 46 # 32 # b) = [a, b]"
    using split_sentences_append [OF a'(2), of b] by simp
  have over: "260 < int (length a) + int (length b) + 17" using lab by simp
  have fits: "\<not> 260 < int (length a) + 15" using la by simp
  have "greedy [] [] [a, b] = [a, b]"
    using a(1) b(1) over fits by (simp add: sa sb Let_def)
  then have g: "greedy_parts (a @ 46 # 32 # b) = [a, b]" by (simp add: greedy_parts_def sp)
  have sl: "split_loop [a, b] 1 = Inr [a, b]" by (simp add: split_loop_enough)
  have m: "strip (a @ 32 # b) = a @ 32 # b"
    by (rule strip_id) (simp_all add: ha lb' a(1) b(1))
  have idx: "smallest_pair_index [a, b] = 0" by (simp add: smallest_pair_index_def)
  have "merge_loop [a, b] 1 = merge_loop [a @ 32 # b] 1"
    by (subst merge_loop.simps) (simp add: idx Let_def m)
  also have "\<dots> = [a @ 32 # b]" by (simp add: merge_loop_enough)
  finally have ml: "merge_loop [a, b] 1 = [a @ 32 # b]" .
  have sl1: "slice_to [a @ 32 # b] 1 = [a @ 32 # b]" by (simp add: slice_to_all)
  have "chunk_text (a @ 46 # 32 # b) 1 = Inr [a @ 32 # b]"
    unfolding chunk_text_def st g Let_def using a(1) by (simp add: sl ml sl1)
  then show ?thesis by simp
qed

lemma two_fragments_packed:
  assumes a: "a \<noteq> []" "\<forall>c\<in>set a. \<not> py_isspace c \<and> c \<noteq> 46"
    and b: "b \<noteq> []" "\<forall>c\<in>set b. \<not> py_isspace c"
    and la: "length a \<le> 245" and lb: "length b \<le> 245" and lab: "243 < length a + length b"
  shows "strip (a @ [46, 32] @ b) = a @ [46, 32] @ b \<and>
         map strip (split_sentences (a @ [46, 32] @ b)) = [a, b] \<and>
         greedy_parts (a @ [46, 32] @ b) = [a, b]"
proof -
  have a': "\<forall>c\<in>set a. \<not> py_isspace c" "\<forall>c\<in>set a. c \<noteq> 46" using a(2) by blast+
  have sa: "strip a = a" using a(1) a'(1) by (rule strip_no_space)
  have sb: "strip b = b" using b by (rule strip_no_space)
  have ha: "\<not> py_isspace (hd a)" using a'(1) hd_in_set [OF a(1)] by blast
  have lb': "\<not> py_isspace (last b)" using b(2) last_in_set [OF b(1)] by blast
  have st: "strip (a @ 46 # 32 # b) = a @ 46 # 32 # b"
    by (rule strip_id) (simp_all add: ha lb' a(1) b(1))
  have "\<forall>c\<in>set b. c \<noteq> 32"
  proof
    fix c assume "c \<in> set b"
    with b(2) have "\<not> py_isspace c" by simp
    then show "c \<noteq> 32" by (auto simp: py_isspace_def)
  qed
  then have "split_sentences b = [b]" by (rule split_sentences_no_delim)
  then have sp: "split_sentences (a @ 46 # 32 # b) = [a, b]"
    using split_sentences_append [OF a'(2), of b] by simp
  have over: "260 < int (length a) + int (length b) + 17" using lab by simp
  have fits: "\<not> 260 < int (length a) + 15" using la by simp
  have "greedy [] [] [a, b] = [a, b]"
    using a(1) b(1) over fits by (simp add: sa sb Let_def)
  then have g: "greedy_parts (a @ 46 # 32 # b) = [a, b]" by (simp add: greedy_parts_def sp)
  from st sp g sa sb show ?thesis by simp
qed

lemma run_abcd:
  "strip (ascii ''abcd'') = ascii ''abcd'' \<and>
   split_sentences (ascii ''abcd'') = [ascii ''abcd''] \<and>
   greedy_parts (ascii ''abcd'') = [ascii ''abcd''] \<and>
   chunk_text (ascii ''abcd'') 3 = Inr [ascii ''a'', ascii ''b'', ascii ''cd'']"
  by (simp add: run_simps)


section \<open>Claims about \<open>_chunk_text\<close>\<close>

text \<open>
  C1. For every \<open>n_parts\<close> from 1 to 50 and every non-empty summary, \<open>_chunk_text\<close>
  raises nothing and returns exactly \<open>n_parts\<close> strings.
\<close>

theorem chunk_text_length:
  assumes "1 \<le> n_parts" and "n_parts \<le> 50" and "summary \<noteq> []"
  shows "\<exists>parts. chunk_text summary n_parts = Inr parts \<and> int (length parts) = n_parts"
proof -
  from chunk_text_inv [where P = "\<lambda>p. True", of summary n_parts]
  obtain parts where "chunk_text summary n_parts = Inr parts" "length parts = nat n_parts"
    by auto
  with assms(1) show ?thesis by simp
qed

text \<open>C1 at the summary \<open>"A. B. C."\<close> with three parts.\<close>

theorem chunk_text_length_witness:
  "(1::int) \<le> 3 \<and> (3::int) \<le> 50 \<and> ascii ''A. B. C.'' \<noteq> [] \<and>
   (\<exists>parts. chunk_text (ascii ''A. B. C.'') 3 = Inr parts \<and> int (length parts) = 3)"
  using chunk_text_length [of 3 "ascii ''A. B. C.''"] by (simp add: ascii_def)

text \<open>
  C3. For every \<open>n \<ge> 0\<close>, a summary that is empty or holds only whitespace gives exactly
  \<open>n\<close> empty strings.
\<close>

theorem chunk_text_blank:
  assumes "0 \<le> n" and "\<forall>c\<in>set summary. py_isspace c"
  shows "chunk_text summary n = Inr (replicate (nat n) []) \<and>
         int (length (replicate (nat n) ([]::pstr))) = n"
  using assms by (simp add: chunk_text_def strip_eq_Nil_iff)

text \<open>C3 at a space, a tab and a newline, with four parts.\<close>

theorem chunk_text_blank_witness:
  "(0::int) \<le> 4 \<and> py_isspace 32 \<and> py_isspace 9 \<and> py_isspace 10 \<and>
   chunk_text [32, 9, 10] 4 = Inr [[], [], [], []]"
proof -
  have r: "replicate 4 ([]::pstr) = [[], [], [], []]" by (simp add: numeral_eq_Suc)
  from chunk_text_blank [of 4 "[32, 9, 10]"] show ?thesis
    by (simp add: py_isspace_def r)
qed

text \<open>
  C8. For every summary, empty or not, \<open>_chunk_text(summary, 0)\<close> raises nothing and
  returns the empty list.
\<close>

theorem chunk_text_zero: "chunk_text summary 0 = Inr []"
proof -
  from chunk_text_inv [where P = "\<lambda>p. True", of summary 0]
  obtain parts where "chunk_text summary 0 = Inr parts" "length parts = nat 0"
    by auto
  then show ?thesis by simp
qed

text \<open>C8 at the summary \<open>"A. B. C."\<close>.\<close>

theorem chunk_text_zero_witness: "chunk_text (ascii ''A. B. C.'') 0 = Inr []"
  using chunk_text_zero [of "ascii ''A. B. C.''"] by simp

text \<open>
  C9. For every summary and every \<open>n_parts\<close>, \<open>_chunk_text\<close> returns, and every string
  it returns equals its own trimmed form: none has leading or trailing whitespace.
\<close>

theorem chunk_text_trimmed:
  "\<exists>parts. chunk_text summary n_parts = Inr parts \<and> (\<forall>p\<in>set parts. strip p = p)"
proof -
  have "\<exists>parts. chunk_text summary n_parts = Inr parts \<and> length parts = nat n_parts \<and>
          (\<forall>p\<in>set parts. strip p = p)"
  proof (rule chunk_text_inv [where P = "\<lambda>p. strip p = p"])
    show "strip [] = []" by (rule strip_Nil)
    show "strip (strip x) = strip x" for x by (rule strip_idem)
    show "strip (c @ [46, 32] @ s) = c @ [46, 32] @ s"
      if "strip c = c" "c \<noteq> []" "strip s = s" "s \<noteq> []" for c s
    proof -
      from that have "strip s \<noteq> []" by simp
      from strip_joined [OF that(1,2) this] that(3) show ?thesis by simp
    qed
  qed
  then show ?thesis by blast
qed

text \<open>C9 at the summary \<open>" a. b "\<close> with two parts.\<close>

theorem chunk_text_trimmed_witness:
  "chunk_text (ascii '' a. b '') 2 = Inr [ascii ''a.'', ascii ''b''] \<and>
   strip (ascii ''a.'') = ascii ''a.'' \<and> strip (ascii ''b'') = ascii ''b''"
  using chunk_text_trimmed [of "ascii '' a. b ''" 2] run_a_b by simp


text \<open>
  C2 as stated does not hold: not every returned segment is non-empty and within the
  budget \<open>len + 15 \<le> 260\<close>. The summary \<open>"a"\<close> with two parts is split into an empty
  string and \<open>"a"\<close>; a single word of 246 letters with two parts comes back as an empty
  string and the word, which is over the budget; two sentences of 200 letters each with one
  part are merged into one string of 401 characters.
\<close>

theorem chunk_text_budget_counterexample:
  "\<not> py_isspace 97 \<and>
   chunk_text [97] 2 = Inr [[], [97]] \<and>
   chunk_text (replicate 246 97) 2 = Inr [[], replicate 246 97] \<and>
   \<not> int (length (replicate 246 (97::nat))) + 15 \<le> 260 \<and>
   chunk_text (replicate 200 97 @ [46, 32] @ replicate 200 98) 1
     = Inr [replicate 200 97 @ [32] @ replicate 200 98] \<and>
   \<not> int (length (replicate 200 (97::nat) @ [32] @ replicate 200 98)) + 15 \<le> 260"
proof -
  have sp: "\<not> py_isspace 97" "\<not> py_isspace 98" by (simp_all add: py_isspace_def)
  have "chunk_text (replicate 246 97) 2 = Inr [[], replicate 246 97]"
    using chunk_text_single_long_fragment [of "replicate 246 97"] sp by simp
  moreover have "chunk_text (replicate 200 97 @ [46, 32] @ replicate 200 98) 1
     = Inr [replicate 200 97 @ [32] @ replicate 200 98]"
    by (rule chunk_text_two_fragments_merged) (simp_all add: sp)
  ultimately show ?thesis using sp run_single_a by simp
qed

text \<open>
  C2, amended. For every summary that is not only whitespace and every \<open>n \<ge> 1\<close>,
  \<open>_chunk_text\<close> returns, and
  \<^item> if no trimmed sentence fragment is longer than 245 characters and greedy packing
    yields at most \<open>n\<close> parts, every returned segment satisfies \<open>len + 15 \<le> 260\<close>;
  \<^item> if the first non-blank sentence fragment, trimmed, is at most 245 characters long,
    every returned segment is non-empty exactly when \<open>n\<close> is at most the number of
    non-whitespace characters in the greedy-packed parts.
  What merging does to the budget is left open.
\<close>

theorem chunk_text_budget_nonempty:
  assumes "strip summary \<noteq> []" and "1 \<le> n"
  shows "\<exists>parts. chunk_text summary n = Inr parts \<and>
           ((\<forall>x\<in>set (split_sentences (strip summary)). length (strip x) \<le> 245) \<and>
            int (length (greedy_parts (strip summary))) \<le> n \<longrightarrow>
              (\<forall>p\<in>set parts. int (length p) + 15 \<le> 260)) \<and>
           ((\<forall>seg more. filter (\<lambda>s. s \<noteq> []) (map strip (split_sentences (strip summary)))
                          = seg # more \<longrightarrow> length seg \<le> 245) \<longrightarrow>
              ((\<forall>p\<in>set parts. p \<noteq> []) \<longleftrightarrow>
               n \<le> int (sum_list (map (\<lambda>p. length (filter (\<lambda>c. \<not> py_isspace c) p))
                             (greedy_parts (strip summary))))))"
proof -
  from chunk_text_inv [where P = "\<lambda>p. True", of summary n]
  obtain parts where parts: "chunk_text summary n = Inr parts" by auto
  have "\<forall>p\<in>set parts. int (length p) + 15 \<le> 260"
    if "\<forall>x\<in>set (split_sentences (strip summary)). length (strip x) \<le> 245"
      and "int (length (greedy_parts (strip summary))) \<le> n"
    using chunk_text_within_budget [OF assms(1) that] parts by auto
  moreover have "(\<forall>p\<in>set parts. p \<noteq> []) \<longleftrightarrow>
               n \<le> int (sum_list (map (\<lambda>p. length (filter (\<lambda>c. \<not> py_isspace c) p))
                             (greedy_parts (strip summary))))"
    if "\<forall>seg more. filter (\<lambda>s. s \<noteq> []) (map strip (split_sentences (strip summary)))
                          = seg # more \<longrightarrow> length seg \<le> 245"
    using assms that parts by (rule chunk_text_nonempty_iff)
  ultimately show ?thesis using parts by blast
qed

text \<open>
  C2, amended, at the summary \<open>"abcd"\<close> with three parts, where the split loop runs twice,
  and at two sentences of 200 letters with one part, where the merge loop runs.
\<close>

theorem chunk_text_budget_nonempty_witness:
  "strip (ascii ''abcd'') \<noteq> [] \<and> (1::int) \<le> 3 \<and>
   split_sentences (strip (ascii ''abcd'')) = [ascii ''abcd''] \<and>
   length (strip (ascii ''abcd'')) \<le> 245 \<and>
   greedy_parts (strip (ascii ''abcd'')) = [ascii ''abcd''] \<and>
   sum_list (map (\<lambda>p. length (filter (\<lambda>c. \<not> py_isspace c) p)) [ascii ''abcd'']) = 4 \<and>
   chunk_text (ascii ''abcd'') 3 = Inr [ascii ''a'', ascii ''b'', ascii ''cd''] \<and>
   ascii ''a'' \<noteq> [] \<and> ascii ''b'' \<noteq> [] \<and> ascii ''cd'' \<noteq> [] \<and>
   int (length (ascii ''a'')) + 15 \<le> 260 \<and> int (length (ascii ''b'')) + 15 \<le> 260 \<and>
   int (length (ascii ''cd'')) + 15 \<le> 260 \<and>
   greedy_parts (strip (replicate 200 97 @ [46, 32] @ replicate 200 98))
     = [replicate 200 97, replicate 200 98] \<and>
   chunk_text (replicate 200 97 @ [46, 32] @ replicate 200 98) 1
     = Inr [replicate 200 97 @ [32] @ replicate 200 98] \<and>
   replicate 200 (97::nat) @ [32] @ replicate 200 98 \<noteq> []"
proof -
  have st: "strip (ascii ''abcd'') = ascii ''abcd''" using run_abcd by simp
  have ne: "strip (ascii ''abcd'') \<noteq> []" unfolding st by (simp add: ascii_def)
  have w: "sum_list (map (\<lambda>p. length (filter (\<lambda>c. \<not> py_isspace c) p)) [ascii ''abcd'']) = 4"
    by (simp add: ascii_def py_isspace_def)
  from chunk_text_budget_nonempty [OF ne, of 3] run_abcd
  have split: "\<forall>p\<in>set [ascii ''a'', ascii ''b'', ascii ''cd'']. int (length p) + 15 \<le> 260"
    unfolding st by (simp add: ascii_def)
  have sp: "\<not> py_isspace 97" "\<not> py_isspace 98" by (simp_all add: py_isspace_def)
  have packed: "strip (replicate 200 97 @ [46, 32] @ replicate 200 98)
        = replicate 200 97 @ [46, 32] @ replicate 200 98 \<and>
      map strip (split_sentences (replicate 200 97 @ [46, 32] @ replicate 200 98))
        = [replicate 200 97, replicate 200 98] \<and>
      greedy_parts (replicate 200 97 @ [46, 32] @ replicate 200 98)
        = [replicate 200 97, replicate 200 98]"
    by (rule two_fragments_packed) (simp_all add: sp)
  then have g: "greedy_parts (strip (replicate 200 97 @ [46, 32] @ replicate 200 98))
        = [replicate 200 97, replicate 200 98]" by simp
  have merged: "chunk_text (replicate 200 97 @ [46, 32] @ replicate 200 98) 1
     = Inr [replicate 200 97 @ [32] @ replicate 200 98]"
    by (rule chunk_text_two_fragments_merged) (simp_all add: sp)
  from run_abcd st ne w split g merged show ?thesis by (simp add: ascii_def)
qed

text \<open>
  C4. In the packing loop, a first fragment whose tentative join is over the soft limit
  while \<open>current\<close> is still empty closes the empty \<open>current\<close> out as a part and then
  starts a new \<open>current\<close> from the fragment. So a summary that is one whitespace-free
  fragment of more than 245 characters, with two parts asked for, comes back as the empty
  string followed by the summary.
\<close>

theorem greedy_closes_empty_current:
  "(strip sent \<noteq> [] \<and> 260 < int (length (strip sent)) + 15 \<longrightarrow>
      greedy parts [] (sent # rest) = greedy (parts @ [[]]) (strip sent) rest) \<and>
   ((\<forall>c\<in>set s. \<not> py_isspace c) \<and> 245 < length s \<longrightarrow>
      greedy_parts (strip s) = [[], s] \<and> chunk_text s 2 = Inr [[], s])"
  using chunk_text_single_long_fragment [of s] by (simp add: Let_def)

text \<open>C4 at a word of 246 letters.\<close>

theorem greedy_closes_empty_current_witness:
  "strip (replicate 246 97) \<noteq> [] \<and> 260 < int (length (strip (replicate 246 97))) + 15 \<and>
   greedy [] [] [replicate 246 97] = [[], replicate 246 97] \<and>
   \<not> py_isspace 97 \<and> set (replicate 246 (97::nat)) = {97} \<and>
   245 < length (replicate 246 (97::nat)) \<and>
   replicate 246 97 \<noteq> [] \<and> (1::int) \<le> 2 \<and>
   chunk_text (replicate 246 97) 2 = Inr [[], replicate 246 97] \<and>
   [] \<in> set [[], replicate 246 (97::nat)]"
proof -
  have sp: "\<not> py_isspace 97" by (simp add: py_isspace_def)
  have st: "strip (replicate 246 97) = replicate 246 97"
    by (rule strip_no_space) (simp_all add: sp)
  from greedy_closes_empty_current [of "replicate 246 97" "[]" "[]" "replicate 246 97"]
  show ?thesis by (simp add: st sp)
qed

section \<open>Claims about the formatting loop\<close>

text \<open>
  C5. For every list of parts, title and \<open>n_parts\<close>, the formatting loop of
  \<open>generate_thread\<close> gives one message per part. The palette has ten distinct markers.
  Message \<open>i\<close> (counted from 1; position \<open>i - 1\<close> of the list) starts with the header
  made of the marker at palette index \<open>(i - 1) mod 10\<close>, a space, \<open>i\<close>, a slash,
  \<open>n_parts\<close> and a space. Message 1 is the header, the hook (trimmed title and the fixed
  suffix), a newline and the trimmed part; every later message is the header and the trimmed
  part.
\<close>

theorem format_tweets_messages:
  "length emojis = 10 \<and> distinct emojis \<and>
   length (format_tweets parts title n_parts) = length parts \<and>
   (\<forall>i<length parts. format_tweets parts title n_parts ! i =
      (let header = emojis ! (i mod 10) @ [32] @ str_int (int i + 1) @ [47] @ str_int n_parts @ [32]
       in if i = 0 then header @ (strip title @ hook_suffix) @ [10] @ strip (parts ! i)
          else header @ strip (parts ! i)))"
proof -
  have e: "length emojis = 10" "distinct emojis" by (simp_all add: emojis_def)
  have idx: "nat ((1 + int i - 1) mod int (length emojis)) = i mod 10" for i
    by (simp add: e nat_mod_distrib)
  have one: "(1 + int i = 1) = (i = 0)" for i by simp
  have shape: "format_tweets parts title n_parts =
      map (\<lambda>i. let header = emojis ! (i mod 10) @ [32] @ str_int (int i + 1) @ [47] @ str_int n_parts @ [32]
               in if i = 0 then header @ (strip title @ hook_suffix) @ [10] @ strip (parts ! i)
                  else header @ strip (parts ! i)) [0..<length parts]"
    unfolding format_tweets_def tweets_loop_map idx one
    by (simp add: Let_def add.commute)
  show ?thesis unfolding shape using e by (simp add: Let_def)
qed

text \<open>C5 at two parts with surrounding blanks, the title \<open>" T "\<close> and \<open>n_parts = 12\<close>.\<close>

theorem format_tweets_messages_witness:
  "(1::nat) < length [ascii '' x '', ascii ''y''] \<and>
   format_tweets [ascii '' x '', ascii ''y''] (ascii '' T '') 12 ! 1
     = [287, 376, 8217, 161] @ ascii '' 2/12 y'' \<and>
   format_tweets [ascii '' x '', ascii ''y''] (ascii '' T '') 12 ! 0
     = [287, 376, 353, 8364] @ ascii '' 1/12 T'' @ hook_suffix @ [10] @ ascii ''x''"
proof -
  have d: "str_int 1 = [49]" "str_int 2 = [50]" "str_int 12 = [49, 50]"
    by (simp_all add: str_int_def digits.simps)
  have s: "strip (ascii '' x '') = ascii ''x''" "strip (ascii ''y'') = ascii ''y''"
    "strip (ascii '' T '') = ascii ''T''"
    by (simp_all add: ascii_def strip_def lstrip_def rstrip_def py_isspace_def)
  have e: "emojis ! 0 = [287, 376, 353, 8364]" "emojis ! Suc 0 = [287, 376, 8217, 161]"
    by (simp_all add: emojis_def)
  have l: "length [ascii '' x '', ascii ''y''] = 2" by simp
  from format_tweets_messages [of "[ascii '' x '', ascii ''y'']" "ascii '' T ''" 12]
  have a: "\<forall>i<2. format_tweets [ascii '' x '', ascii ''y''] (ascii '' T '') 12 ! i =
      (let header = emojis ! (i mod 10) @ [32] @ str_int (int i + 1) @ [47] @ str_int 12 @ [32]
       in if i = 0 then header @ (strip (ascii '' T '') @ hook_suffix) @ [10] @ strip ([ascii '' x '', ascii ''y''] ! i)
          else header @ strip ([ascii '' x '', ascii ''y''] ! i))"
    unfolding l by blast
  from a [rule_format, of 0] a [rule_format, of 1] show ?thesis
    by (simp add: d s e) (simp add: ascii_def)
qed

section \<open>Claims about \<open>_summarize_text\<close>\<close>

text \<open>
  C6. For every text and every word count \<open>target_words\<close>, without a credential
  \<open>_summarize_text\<close> returns the first \<open>target_words\<close> whitespace-delimited tokens of the
  text joined by single spaces (all of them when there are fewer), and makes no external
  call. The tokens are the non-empty, whitespace-free words of \<open>text.split()\<close>.
\<close>

theorem summarize_text_fallback:
  fixes target_words :: nat
  shows "summarize_text openai_chat text None (int target_words)
           = (join [32] (take target_words (py_split text)), []) \<and>
         (\<forall>w\<in>set (py_split text). w \<noteq> [] \<and> (\<forall>c\<in>set w. \<not> py_isspace c))"
proof -
  have "\<forall>w\<in>set (split_ws [] text). w \<noteq> [] \<and> (\<forall>c\<in>set w. \<not> py_isspace c)"
    by (rule split_ws_tokens) simp
  then show ?thesis
    by (simp add: summarize_text_def slice_to_def py_split_def Let_def)
qed

text \<open>C6 at the text \<open>" a b  c "\<close> with \<open>target_words = 2\<close>, and with \<open>target_words = 5\<close>.\<close>

theorem summarize_text_fallback_witness:
  "py_split (ascii '' a b  c '') = [ascii ''a'', ascii ''b'', ascii ''c''] \<and>
   summarize_text openai_unavailable (ascii '' a b  c '') None 2 = (ascii ''a b'', []) \<and>
   summarize_text openai_unavailable (ascii '' a b  c '') None 5 = (ascii ''a b c'', [])"
proof -
  have p: "py_split (ascii '' a b  c '') = [ascii ''a'', ascii ''b'', ascii ''c'']"
    by (simp add: py_split_def ascii_def py_isspace_def)
  have t: "take 2 [ascii ''a'', ascii ''b'', ascii ''c''] = [ascii ''a'', ascii ''b'']"
    "take 5 [ascii ''a'', ascii ''b'', ascii ''c''] = [ascii ''a'', ascii ''b'', ascii ''c'']"
    by (simp_all add: numeral_eq_Suc)
  from summarize_text_fallback [of openai_unavailable "ascii '' a b  c ''" 2]
    summarize_text_fallback [of openai_unavailable "ascii '' a b  c ''" 5]
  show ?thesis unfolding p t by (simp add: ascii_def)
qed

text \<open>
  C10. A text that is empty or holds only whitespace gives the empty summary, for every
  \<open>target_words\<close> and every credential, and no external call is attempted.
\<close>

theorem summarize_text_blank:
  assumes "\<forall>c\<in>set text. py_isspace c"
  shows "summarize_text openai_chat text openai_api_key target_words = ([], [])"
  using assms by (simp add: summarize_text_def py_split_def split_ws_blank)

text \<open>C10 at a blank text with a credential supplied.\<close>

theorem summarize_text_blank_witness:
  "py_isspace 32 \<and> py_isspace 10 \<and> py_isspace 9 \<and>
   summarize_text openai_unavailable [32, 10, 9] (Some (ascii ''sk-1'')) 300 = ([], [])"
  using summarize_text_blank [of "[32, 10, 9]" openai_unavailable "Some (ascii ''sk-1'')" 300]
  by (simp add: py_isspace_def)

section \<open>Claims about \<open>generate_thread\<close>\<close>

text \<open>
  C7 as stated does not hold in its "only if" half: with \<open>max_tweets\<close> in range,
  \<open>fetch_content\<close> is called on the URL as given, and for a URL without a scheme
  \<open>requests.get\<close> raises \<open>MissingSchema\<close>, which is a \<open>ValueError\<close> and leaves
  \<open>generate_thread\<close> uncaught.
\<close>

theorem generate_thread_invalid_argument_counterexample:
  "\<not> ((3::int) < 3 \<or> (3::int) > 20) \<and>
   generate_thread fetch_missing_schema openai_unavailable (ascii ''u'') None None 3
     = (Inl (ValueError (ascii ''Invalid URL: No scheme supplied'')), [FetchContent (ascii ''u'')])"
  by (simp add: generate_thread_def fetch_missing_schema_def)

text \<open>
  C7, amended. \<open>generate_thread\<close> raises a \<open>ValueError\<close> before any page is fetched and
  any summarisation call made if and only if \<open>max_tweets < 3\<close> or \<open>max_tweets > 20\<close>, and
  it is then the one with the message about \<open>max_tweets\<close>. With \<open>max_tweets\<close> in range
  it raises exactly when \<open>fetch_content\<close> raises, and that same exception: summarising,
  chunking and formatting add none.
\<close>

theorem generate_thread_invalid_argument:
  "((\<exists>msg. generate_thread fetch_content openai_chat url openai_api_key title max_tweets
        = (Inl (ValueError msg), [])) \<longleftrightarrow> max_tweets < 3 \<or> max_tweets > 20) \<and>
   (max_tweets < 3 \<or> max_tweets > 20 \<longrightarrow>
      generate_thread fetch_content openai_chat url openai_api_key title max_tweets
        = (Inl (ValueError (ascii ''max_tweets must be between 3 and 20'')), [])) \<and>
   (\<not> (max_tweets < 3 \<or> max_tweets > 20) \<longrightarrow>
      (\<forall>e. fst (generate_thread fetch_content openai_chat url openai_api_key title max_tweets) = Inl e
            \<longleftrightarrow> fetch_content url = Inl e))"
proof (cases "max_tweets < 3 \<or> max_tweets > 20")
  case True
  then show ?thesis by (simp add: generate_thread_def)
next
  case False
  have "\<exists>r calls. generate_thread fetch_content openai_chat url openai_api_key title max_tweets
          = (r, FetchContent url # calls) \<and> (\<forall>e. r = Inl e \<longleftrightarrow> fetch_content url = Inl e)"
  proof (cases "fetch_content url")
    case (Inl e)
    with False show ?thesis by (simp add: generate_thread_def)
  next
    case (Inr page)
    obtain page_title description content where page: "page = (page_title, description, content)"
      by (cases page) auto
    obtain summary calls where sm:
      "summarize_text openai_chat (if content \<noteq> [] then content else description) openai_api_key 300
         = (summary, calls)"
      by (cases "summarize_text openai_chat (if content \<noteq> [] then content else description) openai_api_key 300")
    from chunk_text_inv [where P = "\<lambda>p. True", of summary max_tweets]
    obtain parts where "chunk_text summary max_tweets = Inr parts" by auto
    with False Inr page sm show ?thesis by (simp add: generate_thread_def Let_def)
  qed
  then obtain r calls where r:
    "generate_thread fetch_content openai_chat url openai_api_key title max_tweets
       = (r, FetchContent url # calls)"
    "\<forall>e. r = Inl e \<longleftrightarrow> fetch_content url = Inl e"
    by blast
  from r(1) have "\<not> (\<exists>msg. generate_thread fetch_content openai_chat url openai_api_key title max_tweets
        = (Inl (ValueError msg), []))" by simp
  moreover from r have "\<forall>e. fst (generate_thread fetch_content openai_chat url openai_api_key title max_tweets) = Inl e
            \<longleftrightarrow> fetch_content url = Inl e" by simp
  ultimately show ?thesis using False by simp
qed

text \<open>
  C7, amended, at \<open>max_tweets = 2\<close>, and at \<open>max_tweets = 3\<close> with a page that cannot be
  reached.
\<close>

theorem generate_thread_invalid_argument_witness:
  "((2::int) < 3 \<or> (2::int) > 20) \<and>
   generate_thread fetch_unavailable openai_unavailable (ascii ''u'') None None 2
     = (Inl (ValueError (ascii ''max_tweets must be between 3 and 20'')), []) \<and>
   \<not> ((3::int) < 3 \<or> (3::int) > 20) \<and>
   fetch_unavailable (ascii ''u'') = Inl (OtherError (ascii ''connection refused'')) \<and>
   fst (generate_thread fetch_unavailable openai_unavailable (ascii ''u'') None None 3)
     = Inl (OtherError (ascii ''connection refused''))"
proof -
  have f: "fetch_unavailable (ascii ''u'') = Inl (OtherError (ascii ''connection refused''))"
    by (simp add: fetch_unavailable_def)
  from generate_thread_invalid_argument [of fetch_unavailable openai_unavailable "ascii ''u''" None None 2]
    generate_thread_invalid_argument [of fetch_unavailable openai_unavailable "ascii ''u''" None None 3]
    f
  show ?thesis by simp
qed

end
